theory Spec2Isabelle
  imports Complex_Main "HOL-Library.Multiset"
begin

section \<open>The reader-writer lock of rwlock.py\<close>

text \<open>
  The model follows \<^verbatim>\<open>src/rwlock/rwlock.py\<close> method by method.

  \<^item> A thread identity is the integer that \<^verbatim>\<open>get_ident()\<close> returns; every method takes
    the identity \<open>me\<close> of the calling thread as its first argument.
  \<^item> The fields \<^verbatim>\<open>state\<close>, \<^verbatim>\<open>waiting\<close> and \<^verbatim>\<open>owning\<close> of \<^verbatim>\<open>_RWLockCore\<close> form a
    record; a method takes the record and gives the updated record back.
  \<^item> A Python exception does not roll anything back, so a method returns a pair: the
    exception raised (\<open>Inl\<close>) or the value returned (\<open>Inr\<close>), and the fields as the
    method leaves them.
  \<^item> A Python name with a leading underscore is written with the prefix \<open>priv_\<close>.
  \<^item> Durations and clock readings are real numbers.
\<close>

type_synonym thread_id = int

datatype error = RuntimeError string | ValueError string | TypeError string

text \<open>What a method did to the condition variable besides waiting on it.\<close>

datatype signal = NotifyAll

record RWLockCore =
  state :: int
  waiting :: int
  owning :: "thread_id list"

type_synonym 'a outcome = "(error + 'a) \<times> RWLockCore"

text \<open>\<^verbatim>\<open>_RWLockCore.__init__\<close>\<close>

definition RWLockCore_init :: RWLockCore where
  "RWLockCore_init = \<lparr>state = 0, waiting = 0, owning = []\<rparr>"

subsection \<open>The admission predicates\<close>

text \<open>\<^verbatim>\<open>_RWLockCore._acquire_write\<close>, lines 77 to 86.\<close>

definition priv_acquire_write :: "thread_id \<Rightarrow> RWLockCore \<Rightarrow> bool outcome" where
  "priv_acquire_write me c =
     (if state c = 0 \<or> (state c < 0 \<and> me \<in> set (owning c))
      then (Inr True, c\<lparr>state := state c - 1, owning := owning c @ [me]\<rparr>)
      else if state c > 0 \<and> me \<in> set (owning c)
      then (Inl (RuntimeError ''cannot upgrade RWLock from read to write''), c)
      else (Inr False, c))"

text \<open>\<^verbatim>\<open>_RWLockCore._acquire_read\<close>, lines 26 to 42. \<^verbatim>\<open>not self.waiting\<close> is true of the
  integer 0 only.\<close>

definition priv_acquire_read :: "thread_id \<Rightarrow> RWLockCore \<Rightarrow> bool outcome" where
  "priv_acquire_read me c =
     (if state c < 0 then priv_acquire_write me c
      else
        let ok = (if waiting c = 0 then True else me \<in> set (owning c))
        in if ok then (Inr True, c\<lparr>state := state c + 1, owning := owning c @ [me]\<rparr>)
           else (Inr False, c))"

subsection \<open>The wait loop\<close>

text \<open>
  Lines 66 to 72 of \<^verbatim>\<open>wait_for\<close>: the bookkeeping at the head of one round of the loop,
  given the reading \<open>t\<close> of \<^verbatim>\<open>time.time()\<close>. The result is the new pair
  \<^verbatim>\<open>(endtime, waittime)\<close>, or \<open>None\<close> where the loop reaches \<^verbatim>\<open>break\<close>.
\<close>

definition next_wait ::
  "real option \<Rightarrow> real option \<Rightarrow> real \<Rightarrow> (real option \<times> real option) option" where
  "next_wait endtime waittime t =
     (case waittime of
        None \<Rightarrow> Some (endtime, None)
      | Some w \<Rightarrow>
          (case endtime of
             None \<Rightarrow> Some (Some (t + w), Some w)
           | Some e \<Rightarrow>
               (let w' = e - t in if w' \<le> 0 then None else Some (Some e, Some w'))))"

text \<open>
  The loop of \<^verbatim>\<open>wait_for\<close>, entered when the predicate has just been false.
  The caller runs alone between two calls of \<^verbatim>\<open>self.cond.wait\<close>; inside such a call it
  gives the monitor up and other threads run. The surroundings of the caller are two
  parameters:
  \<^item> \<open>clock i\<close> is the reading of \<^verbatim>\<open>time.time()\<close> in round \<open>i\<close> of the loop;
  \<^item> \<open>wakes\<close> lists, for each successive call of \<^verbatim>\<open>self.cond.wait\<close> that returns, what
    the other threads did to the fields while the caller was inside it.

  When the caller enters \<^verbatim>\<open>self.cond.wait\<close> and \<open>wakes\<close> is used up, the caller stays
  blocked: the result is \<open>None\<close>.
\<close>

fun wait_loop ::
  "(RWLockCore \<Rightarrow> bool outcome) \<Rightarrow> real option \<Rightarrow> real option \<Rightarrow> (nat \<Rightarrow> real) \<Rightarrow> nat \<Rightarrow>
   (RWLockCore \<Rightarrow> RWLockCore) list \<Rightarrow> RWLockCore \<Rightarrow> bool outcome option" where
  "wait_loop predicate endtime waittime clock i wakes c =
     (case next_wait endtime waittime (clock i) of
        None \<Rightarrow> Some (Inr False, c)
      | Some (endtime', waittime') \<Rightarrow>
          (case wakes of
             [] \<Rightarrow> None
           | w # rest \<Rightarrow>
               (let (result, c') = predicate (w c)
                in if result = Inr False
                   then wait_loop predicate endtime' waittime' clock (Suc i) rest c'
                   else Some (result, c'))))"

declare wait_loop.simps [simp del]

text \<open>\<^verbatim>\<open>_RWLockCore.wait_for\<close>, lines 54 to 75.\<close>

definition wait_for ::
  "(RWLockCore \<Rightarrow> bool outcome) \<Rightarrow> real option \<Rightarrow> (nat \<Rightarrow> real) \<Rightarrow>
   (RWLockCore \<Rightarrow> RWLockCore) list \<Rightarrow> RWLockCore \<Rightarrow> bool outcome option" where
  "wait_for predicate timeout clock wakes c =
     (let (result, c') = predicate c
      in if result = Inr False
         then wait_loop predicate None timeout clock 0 wakes c'
         else Some (result, c'))"

subsection \<open>Acquiring and releasing\<close>

text \<open>\<^verbatim>\<open>_RWLockCore.acquire_read\<close>, lines 22 to 24.\<close>

definition acquire_read ::
  "thread_id \<Rightarrow> real option \<Rightarrow> (nat \<Rightarrow> real) \<Rightarrow> (RWLockCore \<Rightarrow> RWLockCore) list \<Rightarrow>
   RWLockCore \<Rightarrow> bool outcome option" where
  "acquire_read me timeout clock wakes c = wait_for (priv_acquire_read me) timeout clock wakes c"

text \<open>\<^verbatim>\<open>_RWLockCore.acquire_write\<close>, lines 46 to 52. The \<^verbatim>\<open>finally\<close> clause runs on a
  return and on an exception alike.\<close>

definition acquire_write ::
  "thread_id \<Rightarrow> real option \<Rightarrow> (nat \<Rightarrow> real) \<Rightarrow> (RWLockCore \<Rightarrow> RWLockCore) list \<Rightarrow>
   RWLockCore \<Rightarrow> bool outcome option" where
  "acquire_write me timeout clock wakes c =
     (case wait_for (priv_acquire_write me) timeout clock wakes (c\<lparr>waiting := waiting c + 1\<rparr>) of
        None \<Rightarrow> None
      | Some (result, c') \<Rightarrow> Some (result, c'\<lparr>waiting := waiting c' - 1\<rparr>))"

text \<open>\<^verbatim>\<open>_RWLockCore.release\<close>, lines 89 to 101. \<^verbatim>\<open>list.remove\<close> deletes the first
  occurrence and raises \<^verbatim>\<open>ValueError\<close> when there is none. The value returned is the list
  of signals sent to the condition variable.\<close>

definition release :: "thread_id \<Rightarrow> RWLockCore \<Rightarrow> signal list outcome" where
  "release me c =
     (if me \<notin> set (owning c)
      then (Inl (RuntimeError ''cannot release an un-acquired lock''), c)
      else
        let c1 = c\<lparr>owning := remove1 me (owning c)\<rparr>;
            c2 = (if state c1 > 0 then c1\<lparr>state := state c1 - 1\<rparr>
                  else c1\<lparr>state := state c1 + 1\<rparr>)
        in (Inr (if state c2 = 0 then [NotifyAll] else []), c2))"

subsection \<open>The interface for a condition variable\<close>

text \<open>\<^verbatim>\<open>_RWLockCore._is_owned\<close>, lines 105 to 106.\<close>

definition priv_is_owned :: "thread_id \<Rightarrow> RWLockCore \<Rightarrow> bool" where
  "priv_is_owned me c \<longleftrightarrow> state c < 0 \<and> me \<in> set (owning c)"

text \<open>\<^verbatim>\<open>_RWLockCore._release_save\<close>, lines 108 to 117. The value returned is the token
  \<^verbatim>\<open>r\<close> together with the signals sent.\<close>

definition priv_release_save ::
  "thread_id \<Rightarrow> RWLockCore \<Rightarrow> (thread_id list \<times> signal list) outcome" where
  "priv_release_save me c =
     (if me \<notin> set (owning c)
      then (Inl (RuntimeError ''cannot release an un-acquired lock''), c)
      else (Inr (owning c, [NotifyAll]), c\<lparr>owning := [], state := 0\<rparr>))"

text \<open>
  \<^verbatim>\<open>_RWLockCore._acquire_restore\<close>, lines 119 to 124. The value of
  \<^verbatim>\<open>self.acquire_write()\<close> is dropped. The monitor is free between the return of
  \<^verbatim>\<open>acquire_write\<close> and the second \<^verbatim>\<open>with self.cond\<close>: \<open>between\<close> is what the other
  threads did to the fields there.

  The token \<open>x\<close> is the content of a list object other than the one that \<open>owning\<close> holds
  when the call starts. A token that \<^verbatim>\<open>_release_save\<close> has returned is such an object
  until it is installed, since line 114 puts a new list into \<open>owning\<close>. Python would pass
  the list by reference: were the token the very list in \<open>owning\<close>, the append of line 82
  would lengthen the token too. That case is outside this definition.
\<close>

definition priv_acquire_restore ::
  "thread_id \<Rightarrow> thread_id list \<Rightarrow> (nat \<Rightarrow> real) \<Rightarrow> (RWLockCore \<Rightarrow> RWLockCore) list \<Rightarrow>
   (RWLockCore \<Rightarrow> RWLockCore) \<Rightarrow> RWLockCore \<Rightarrow> unit outcome option" where
  "priv_acquire_restore me x clock wakes between c =
     (case acquire_write me None clock wakes c of
        None \<Rightarrow> None
      | Some (Inl e, c1) \<Rightarrow> Some (Inl e, c1)
      | Some (Inr b, c1) \<Rightarrow>
          (let c2 = between c1
           in Some (Inr (), c2\<lparr>owning := x, state := - int (length x)\<rparr>)))"

subsection \<open>The handles\<close>

text \<open>\<^verbatim>\<open>_ReaderLock._timeout\<close>, lines 131 to 140.\<close>

definition priv_timeout :: "bool \<Rightarrow> real \<Rightarrow> error + real option" where
  "priv_timeout blocking timeout =
     (if timeout < 0 \<and> timeout \<noteq> - 1 then Inl (ValueError ''invalid timeout'')
      else if blocking then Inr (if timeout \<ge> 0 then Some timeout else None)
      else if timeout > 0 then Inl (ValueError ''can't specify a timeout when non-blocking'')
      else Inr (Some 0))"

section \<open>Notions used by the properties\<close>

text \<open>
  The invariants of the data model: a positive \<open>state\<close> counts the entries of \<open>owning\<close>,
  a negative \<open>state\<close> counts them too and they all name one thread, \<open>state = 0\<close> goes with
  an empty \<open>owning\<close>, and \<open>waiting\<close> is not negative.
\<close>

definition invariant :: "RWLockCore \<Rightarrow> bool" where
  "invariant c \<longleftrightarrow>
     (0 < state c \<longrightarrow> int (length (owning c)) = state c) \<and>
     (state c < 0 \<longrightarrow>
        int (length (owning c)) = - state c \<and> (\<forall>t \<in> set (owning c). t = hd (owning c))) \<and>
     (state c = 0 \<longrightarrow> owning c = []) \<and>
     0 \<le> waiting c"

text \<open>A step \<open>w\<close> of the other threads keeps the property \<open>P\<close> of the fields.\<close>

definition preserves :: "(RWLockCore \<Rightarrow> bool) \<Rightarrow> (RWLockCore \<Rightarrow> RWLockCore) \<Rightarrow> bool" where
  "preserves P w \<longleftrightarrow> (\<forall>s. P s \<longrightarrow> P (w s))"

text \<open>
  While a thread is inside \<^verbatim>\<open>acquire_write\<close>, one unit of \<open>waiting\<close> is its own: the other
  threads keep the invariants and leave that unit in place.
\<close>

definition invariant_while_waiting :: "RWLockCore \<Rightarrow> bool" where
  "invariant_while_waiting s \<longleftrightarrow> invariant s \<and> 1 \<le> waiting s"

text \<open>What the other threads alone did to the fields in the given waits, in order.\<close>

definition others :: "(RWLockCore \<Rightarrow> RWLockCore) list \<Rightarrow> RWLockCore \<Rightarrow> RWLockCore" where
  "others ws c = fold (\<lambda>w s. w s) ws c"


text \<open>The fields after \<open>n\<close> successive calls of \<^verbatim>\<open>release\<close> by the thread \<open>me\<close>.\<close>

fun release_repeat :: "nat \<Rightarrow> thread_id \<Rightarrow> RWLockCore \<Rightarrow> RWLockCore" where
  "release_repeat 0 me c = c"
| "release_repeat (Suc n) me c = release_repeat n me (snd (release me c))"

text \<open>
  Surroundings for concrete runs: a clock that stands still, a clock that advances by one
  second from one reading to the next, and the wake-up during which the thread \<open>t\<close>
  calls \<^verbatim>\<open>release\<close>.
\<close>

definition frozen_clock :: "nat \<Rightarrow> real" where
  "frozen_clock i = 0"

definition ticking_clock :: "nat \<Rightarrow> real" where
  "ticking_clock i = real i"

definition released_by :: "thread_id \<Rightarrow> RWLockCore \<Rightarrow> RWLockCore" where
  "released_by t s = snd (release t s)"

text \<open>The wake-up during which the thread \<open>t\<close> evaluates the read predicate.\<close>

definition acquired_by :: "thread_id \<Rightarrow> RWLockCore \<Rightarrow> RWLockCore" where
  "acquired_by t s = snd (priv_acquire_read t s)"

text \<open>The lock is held exclusively and the thread \<open>me\<close> has no stake in it.\<close>

definition held_elsewhere :: "thread_id \<Rightarrow> RWLockCore \<Rightarrow> bool" where
  "held_elsewhere me s \<longleftrightarrow> state s < 0 \<and> me \<notin> set (owning s)"

section \<open>Auxiliary facts\<close>

lemma wait_loop_Nil:
  "wait_loop predicate endtime waittime clock i [] c =
     (case next_wait endtime waittime (clock i) of None \<Rightarrow> Some (Inr False, c) | Some p \<Rightarrow> None)"
  by (simp add: wait_loop.simps split: option.splits)

lemma wait_loop_Cons:
  "wait_loop predicate endtime waittime clock i (w # rest) c =
     (case next_wait endtime waittime (clock i) of
        None \<Rightarrow> Some (Inr False, c)
      | Some (endtime', waittime') \<Rightarrow>
          (let (result, c') = predicate (w c)
           in if result = Inr False
              then wait_loop predicate endtime' waittime' clock (Suc i) rest c'
              else Some (result, c')))"
  by (subst wait_loop.simps) (simp split: option.splits)

lemma wait_loop_first_round_Nil:
  "wait_loop predicate None timeout clock i [] c = None"
  by (simp add: wait_loop_Nil next_wait_def split: option.splits)

lemma timeout_raises:
  "isl (priv_timeout blocking timeout) \<longleftrightarrow>
      (timeout < 0 \<and> timeout \<noteq> - 1) \<or> (\<not> blocking \<and> 0 < timeout)"
  unfolding priv_timeout_def by (cases blocking; simp; linarith)

lemma release_exclusive_step:
  assumes "state c = - int (Suc d)" and "owning c = replicate (Suc d) me"
  shows "release me c =
     (Inr (if d = 0 then [NotifyAll] else []),
      c\<lparr>owning := replicate d me, state := - int d\<rparr>)"
  using assms by (simp add: release_def Let_def)

lemma release_repeat_exclusive:
  "k \<le> d \<Longrightarrow> state c = - int d \<Longrightarrow> owning c = replicate d me \<Longrightarrow>
   release_repeat k me c = c\<lparr>owning := replicate (d - k) me, state := - int (d - k)\<rparr>"
proof (induction k arbitrary: c d)
  case 0
  then show ?case by simp
next
  case (Suc k)
  then obtain d' where d: "d = Suc d'" by (cases d) auto
  have step: "snd (release me c) = c\<lparr>owning := replicate d' me, state := - int d'\<rparr>"
    using Suc.prems d by (simp add: release_exclusive_step)
  have "release_repeat k me (c\<lparr>owning := replicate d' me, state := - int d'\<rparr>) =
        c\<lparr>owning := replicate d' me, state := - int d'\<rparr>
         \<lparr>owning := replicate (d' - k) me, state := - int (d' - k)\<rparr>"
    using Suc.prems d by (intro Suc.IH) simp_all
  then show ?case using step d by simp
qed

lemma restore_after_save:
  "priv_acquire_restore me x clock wakes (\<lambda>s. s) (c\<lparr>owning := [], state := 0\<rparr>) =
     Some (Inr (), c\<lparr>owning := x, state := - int (length x)\<rparr>)"
  by (simp add: priv_acquire_restore_def acquire_write_def wait_for_def priv_acquire_write_def)









lemma priv_acquire_write_waiting:
  "waiting (snd (priv_acquire_write me s)) = waiting s"
  by (simp add: priv_acquire_write_def)

lemma wait_for_fast:
  "fst (predicate c) \<noteq> Inr False \<Longrightarrow> wait_for predicate timeout clock wakes c = Some (predicate c)"
  by (cases "predicate c") (simp add: wait_for_def)

lemma wait_loop_expired:
  "e \<le> clock i \<Longrightarrow> wait_loop predicate (Some e) (Some w) clock i wakes c = Some (Inr False, c)"
  by (subst wait_loop.simps) (simp add: next_wait_def)

lemma all_same_append:
  "me \<in> set xs \<Longrightarrow> \<forall>t\<in>set xs. t = hd xs \<Longrightarrow> \<forall>t\<in>set (xs @ [me]). t = hd (xs @ [me])"
  by (cases xs) auto

lemma all_same_remove1:
  assumes "\<forall>t\<in>set xs. t = hd xs"
  shows "\<forall>t\<in>set (remove1 me xs). t = hd (remove1 me xs)"
proof (cases "remove1 me xs")
  case Nil
  then show ?thesis by simp
next
  case (Cons y ys)
  have sub: "set (remove1 me xs) \<subseteq> set xs" by (rule set_remove1_subset)
  have "y \<in> set xs" using sub Cons by auto
  then have "y = hd xs" using assms by blast
  moreover have "\<forall>t\<in>set (remove1 me xs). t = hd xs" using sub assms by blast
  ultimately show ?thesis using Cons by simp
qed

lemma invariant_priv_acquire_write:
  "invariant c \<Longrightarrow> invariant (snd (priv_acquire_write me c))"
  unfolding invariant_def priv_acquire_write_def
  by (cases "owning c") auto

lemma invariant_priv_acquire_read:
  "invariant c \<Longrightarrow> invariant (snd (priv_acquire_read me c))"
proof (cases "state c < 0")
  case True
  assume "invariant c"
  with True show ?thesis by (simp add: priv_acquire_read_def invariant_priv_acquire_write)
next
  case False
  assume "invariant c"
  with False show ?thesis by (auto simp add: priv_acquire_read_def invariant_def Let_def)
qed

lemma invariant_release: "invariant c \<Longrightarrow> invariant (snd (release me c))"
proof (cases "me \<in> set (owning c)")
  case False
  assume "invariant c"
  with False show ?thesis by (simp add: release_def)
next
  case True
  assume inv: "invariant c"
  have pos: "0 < length (owning c)" using True by (rule length_pos_if_in_set)
  have "length (remove1 me (owning c)) = length (owning c) - 1"
    using True by (simp add: length_remove1)
  with pos have len: "int (length (remove1 me (owning c))) = int (length (owning c)) - 1"
    by linarith
  have nz: "state c \<noteq> 0" using inv True by (auto simp add: invariant_def)
  show ?thesis
  proof (cases "0 < state c")
    case pos: True
    then show ?thesis using inv True len
      by (auto simp add: release_def Let_def invariant_def)
  next
    case False
    with nz have neg: "state c < 0" by simp
    have "\<forall>t\<in>set (owning c). t = hd (owning c)" using inv neg by (simp add: invariant_def)
    moreover have "state c + 1 = 0 \<longrightarrow> remove1 me (owning c) = []"
    proof
      assume "state c + 1 = 0"
      moreover have "int (length (owning c)) = - state c"
        using inv neg by (simp add: invariant_def)
      ultimately have "int (length (remove1 me (owning c))) = 0" using len by linarith
      then show "remove1 me (owning c) = []" by simp
    qed
    ultimately show ?thesis
      using all_same_remove1 [of "owning c" me] neg inv True len
      by (auto simp add: release_def Let_def invariant_def)
  qed
qed

lemma invariant_priv_release_save: "invariant c \<Longrightarrow> invariant (snd (priv_release_save me c))"
  by (auto simp add: priv_release_save_def invariant_def)

lemma wait_loop_keeps:
  assumes pred: "\<And>s. P s \<Longrightarrow> P (snd (predicate s))"
  shows "\<forall>w\<in>set wakes. preserves P w \<Longrightarrow> P c \<Longrightarrow>
         wait_loop predicate endtime waittime clock i wakes c = Some (r, c') \<Longrightarrow> P c'"
proof (induction wakes arbitrary: endtime waittime i c)
  case Nil
  then show ?case by (auto simp add: wait_loop_Nil split: option.splits)
next
  case (Cons w rest)
  show ?case
  proof (cases "next_wait endtime waittime (clock i)")
    case None
    with Cons.prems show ?thesis by (simp add: wait_loop_Cons)
  next
    case (Some p)
    obtain e' w' where p: "p = (e', w')" by (cases p)
    obtain r1 c1 where step: "predicate (w c) = (r1, c1)" by (cases "predicate (w c)")
    have "P (w c)" using Cons.prems by (simp add: preserves_def)
    from pred [OF this] step have c1: "P c1" by simp
    show ?thesis
    proof (cases "r1 = Inr False")
      case True
      with Cons.prems Some p step
      have "wait_loop predicate e' w' clock (Suc i) rest c1 = Some (r, c')"
        by (simp add: wait_loop_Cons)
      with Cons.IH [of c1] Cons.prems(1) c1 show ?thesis by simp
    next
      case False
      with Cons.prems Some p step have "c' = c1" by (simp add: wait_loop_Cons)
      with c1 show ?thesis by simp
    qed
  qed
qed

lemma wait_for_keeps:
  assumes pred: "\<And>s. P s \<Longrightarrow> P (snd (predicate s))"
    and others: "\<forall>w\<in>set wakes. preserves P w" and start: "P c"
    and run: "wait_for predicate timeout clock wakes c = Some (r, c')"
  shows "P c'"
proof -
  obtain r0 c0 where first: "predicate c = (r0, c0)" by (cases "predicate c")
  from pred [OF start] first have c0: "P c0" by simp
  show ?thesis
  proof (cases "r0 = Inr False")
    case True
    with run first have "wait_loop predicate None timeout clock 0 wakes c0 = Some (r, c')"
      by (simp add: wait_for_def)
    from wait_loop_keeps [of P predicate, OF pred others c0 this] show ?thesis .
  next
    case False
    with run first have "c' = c0" by (simp add: wait_for_def)
    with c0 show ?thesis by simp
  qed
qed

lemma invariant_acquire_read:
  assumes "invariant c" and "\<forall>w\<in>set wakes. preserves invariant w"
    and "acquire_read me timeout clock wakes c = Some (r, c')"
  shows "invariant c'"
  using wait_for_keeps [of invariant "priv_acquire_read me" wakes c timeout clock r c'] assms
  by (simp add: acquire_read_def invariant_priv_acquire_read)

lemma waiting_priv_acquire_write:
  "invariant_while_waiting s \<Longrightarrow> invariant_while_waiting (snd (priv_acquire_write me s))"
  by (simp add: invariant_while_waiting_def invariant_priv_acquire_write priv_acquire_write_waiting)

lemma invariant_acquire_write:
  assumes inv: "invariant c" and others: "\<forall>w\<in>set wakes. preserves invariant_while_waiting w"
    and run: "acquire_write me timeout clock wakes c = Some (r, c')"
  shows "invariant c'"
proof -
  let ?c1 = "c\<lparr>waiting := waiting c + 1\<rparr>"
  from run obtain c2 where inner:
      "wait_for (priv_acquire_write me) timeout clock wakes ?c1 = Some (r, c2)"
    and out: "c' = c2\<lparr>waiting := waiting c2 - 1\<rparr>"
    by (auto simp add: acquire_write_def split: option.splits)
  have start: "invariant_while_waiting ?c1"
    using inv by (simp add: invariant_while_waiting_def invariant_def)
  have "invariant_while_waiting c2"
    using wait_for_keeps [of invariant_while_waiting "priv_acquire_write me", OF _ others start inner]
    by (simp add: waiting_priv_acquire_write)
  then show ?thesis using out by (simp add: invariant_while_waiting_def invariant_def)
qed

lemma invariant_priv_acquire_restore:
  assumes inv: "invariant c" and others: "\<forall>w\<in>set wakes. preserves invariant_while_waiting w"
    and gap: "preserves invariant between"
    and token: "\<forall>t\<in>set x. t = hd x"
    and run: "priv_acquire_restore me x clock wakes between c = Some (r, c')"
  shows "invariant c'"
proof -
  from run obtain r1 c1 where w: "acquire_write me None clock wakes c = Some (r1, c1)"
    by (auto simp add: priv_acquire_restore_def split: option.splits)
  from invariant_acquire_write [OF inv others w] have c1: "invariant c1" .
  show ?thesis
  proof (cases r1)
    case (Inl e)
    with run w have "c' = c1" by (simp add: priv_acquire_restore_def)
    with c1 show ?thesis by simp
  next
    case (Inr b)
    with run w have c': "c' = (between c1)\<lparr>owning := x, state := - int (length x)\<rparr>"
      by (simp add: priv_acquire_restore_def)
    have "invariant (between c1)" using gap c1 by (simp add: preserves_def)
    then show ?thesis using token c' by (auto simp add: invariant_def)
  qed
qed

lemma released_by_keeps_invariant: "preserves invariant (released_by t)"
  by (simp add: preserves_def released_by_def invariant_release)

lemma released_by_keeps_waiting: "preserves invariant_while_waiting (released_by t)"
proof -
  have "waiting (snd (release t s)) = waiting s" for s
    by (simp add: release_def Let_def)
  then show ?thesis
    by (simp add: preserves_def released_by_def invariant_while_waiting_def invariant_release)
qed

lemma held_elsewhere_read_false:
  "held_elsewhere me s \<Longrightarrow> priv_acquire_read me s = (Inr False, s)"
  by (simp add: held_elsewhere_def priv_acquire_read_def priv_acquire_write_def)

lemma acquired_by_keeps_held_elsewhere:
  "t \<noteq> me \<Longrightarrow> preserves (held_elsewhere me) (acquired_by t)"
  by (auto simp add: preserves_def held_elsewhere_def acquired_by_def priv_acquire_read_def
      priv_acquire_write_def)

lemma wait_loop_held_elsewhere:
  "\<forall>w\<in>set wakes. preserves (held_elsewhere me) w \<Longrightarrow> held_elsewhere me c \<Longrightarrow>
   wait_loop (priv_acquire_read me) endtime waittime clock i wakes c = Some (r, c') \<Longrightarrow>
   r = Inr False"
proof (induction wakes arbitrary: endtime waittime i c)
  case Nil
  then show ?case by (auto simp add: wait_loop_Nil split: option.splits)
next
  case (Cons w rest)
  have held: "held_elsewhere me (w c)" using Cons.prems by (simp add: preserves_def)
  show ?case
  proof (cases "next_wait endtime waittime (clock i)")
    case None
    with Cons.prems show ?thesis by (simp add: wait_loop_Cons)
  next
    case (Some p)
    obtain e' w' where p: "p = (e', w')" by (cases p)
    from Cons.prems(3) Some p held
    have "wait_loop (priv_acquire_read me) e' w' clock (Suc i) rest (w c) = Some (r, c')"
      by (simp add: wait_loop_Cons held_elsewhere_read_false)
    with Cons.IH [of "w c"] Cons.prems(1) held show ?thesis by simp
  qed
qed

lemma wait_loop_untimed_held_elsewhere:
  "\<forall>w\<in>set wakes. preserves (held_elsewhere me) w \<Longrightarrow> held_elsewhere me c \<Longrightarrow>
   wait_loop (priv_acquire_read me) endtime None clock i wakes c = None"
proof (induction wakes arbitrary: i c)
  case Nil
  then show ?case by (simp add: wait_loop_Nil next_wait_def)
next
  case (Cons w rest)
  have held: "held_elsewhere me (w c)" using Cons.prems by (simp add: preserves_def)
  have "wait_loop (priv_acquire_read me) endtime None clock (Suc i) rest (w c) = None"
    using Cons.IH [of "w c"] Cons.prems(1) held by simp
  then show ?case
    using held by (simp add: wait_loop_Cons next_wait_def held_elsewhere_read_false)
qed

section \<open>The properties\<close>

subsection \<open>Claim C2\<close>

text \<open>
  Claim C2. A thread that is in \<open>owning\<close> while \<open>state\<close> is positive and calls
  \<^verbatim>\<open>acquire_write\<close> gets the upgrade error from the first evaluation of the predicate:
  whatever the timeout, the clock and the wake-ups are (none at all included), the call
  returns with that error, and it leaves every field as it was.
\<close>

theorem upgrade_rejected:
  assumes "0 < state c" and "me \<in> set (owning c)"
  shows "priv_acquire_write me c =
           (Inl (RuntimeError ''cannot upgrade RWLock from read to write''), c) \<and>
         acquire_write me timeout clock wakes c =
           Some (Inl (RuntimeError ''cannot upgrade RWLock from read to write''), c)"
  using assms by (simp add: priv_acquire_write_def acquire_write_def wait_for_def)

theorem upgrade_rejected_witness:
  "acquire_write 3 None (\<lambda>i. 0) [] \<lparr>state = 2, waiting = 0, owning = [3, 4]\<rparr> =
     Some (Inl (RuntimeError ''cannot upgrade RWLock from read to write''),
           \<lparr>state = 2, waiting = 0, owning = [3, 4]\<rparr>)"
  using upgrade_rejected [of "\<lparr>state = 2, waiting = 0, owning = [3, 4]\<rparr>" 3 None "\<lambda>i. 0" "[]"]
  by simp

subsection \<open>Claim C3\<close>

text \<open>
  Claim C3. \<^verbatim>\<open>release\<close> by a thread that is not in \<open>owning\<close> raises the error of an
  un-acquired lock and changes no field. Otherwise it removes one occurrence of the caller
  from \<open>owning\<close>, takes one from a positive \<open>state\<close> and adds one to any other, leaves
  \<open>waiting\<close> alone, and calls \<^verbatim>\<open>notify_all\<close> exactly when the new \<open>state\<close> is 0.
\<close>

theorem release_effect:
  "(me \<notin> set (owning c) \<longrightarrow>
      release me c = (Inl (RuntimeError ''cannot release an un-acquired lock''), c)) \<and>
   (me \<in> set (owning c) \<longrightarrow>
      fst (release me c) = Inr (if state (snd (release me c)) = 0 then [NotifyAll] else []) \<and>
      owning (snd (release me c)) = remove1 me (owning c) \<and>
      mset (owning (snd (release me c))) = mset (owning c) - {#me#} \<and>
      state (snd (release me c)) = (if 0 < state c then state c - 1 else state c + 1) \<and>
      waiting (snd (release me c)) = waiting c)"
  by (simp add: release_def Let_def)

theorem release_effect_witness:
  "fst (release 5 \<lparr>state = - 1, waiting = 2, owning = [5]\<rparr>) = Inr [NotifyAll] \<and>
   snd (release 5 \<lparr>state = - 1, waiting = 2, owning = [5]\<rparr>) =
     \<lparr>state = 0, waiting = 2, owning = []\<rparr> \<and>
   release 6 \<lparr>state = - 1, waiting = 2, owning = [5]\<rparr> =
     (Inl (RuntimeError ''cannot release an un-acquired lock''),
      \<lparr>state = - 1, waiting = 2, owning = [5]\<rparr>)"
  using release_effect [of 5 "\<lparr>state = - 1, waiting = 2, owning = [5]\<rparr>"]
        release_effect [of 6 "\<lparr>state = - 1, waiting = 2, owning = [5]\<rparr>"]
  by (cases "snd (release 5 \<lparr>state = - 1, waiting = 2, owning = [5]\<rparr>)") simp

subsection \<open>Claim C4\<close>

text \<open>
  Claim C4. With \<open>state\<close> not negative, the read predicate admits the caller exactly
  when \<open>waiting\<close> is 0 or the caller is in \<open>owning\<close>. On admission \<open>state\<close> grows by one
  and the caller is appended to \<open>owning\<close>; otherwise no field changes.
\<close>

theorem read_admission:
  assumes "0 \<le> state c"
  shows "priv_acquire_read me c =
     (if waiting c = 0 \<or> me \<in> set (owning c)
      then (Inr True, c\<lparr>state := state c + 1, owning := owning c @ [me]\<rparr>)
      else (Inr False, c))"
  using assms by (simp add: priv_acquire_read_def)

theorem read_admission_witness:
  "priv_acquire_read 7 \<lparr>state = 1, waiting = 1, owning = [7]\<rparr> =
     (Inr True, \<lparr>state = 2, waiting = 1, owning = [7, 7]\<rparr>) \<and>
   priv_acquire_read 8 \<lparr>state = 1, waiting = 1, owning = [7]\<rparr> =
     (Inr False, \<lparr>state = 1, waiting = 1, owning = [7]\<rparr>)"
  using read_admission [of "\<lparr>state = 1, waiting = 1, owning = [7]\<rparr>" 7]
        read_admission [of "\<lparr>state = 1, waiting = 1, owning = [7]\<rparr>" 8]
  by simp

subsection \<open>Claim C6\<close>

text \<open>
  Claim C6. With \<open>state\<close> negative, the read predicate is the write predicate. A caller
  in \<open>owning\<close> is admitted with one more exclusive stake: \<open>state\<close> goes down by one and
  the caller is appended, and \<^verbatim>\<open>acquire_read\<close> returns \<open>True\<close> with these fields at once,
  whatever the timeout and the wake-ups. A caller not in \<open>owning\<close> is not admitted and no
  field changes: \<^verbatim>\<open>acquire_read\<close> enters the wait loop with the fields as they were. With
  no timeout and no wake-up it does not return; as long as the other threads keep the lock
  held exclusively without the caller, a call with no timeout does not return and a call
  with a timeout returns nothing but \<open>False\<close>.
\<close>

theorem read_in_write_mode:
  assumes "state c < 0"
  shows "priv_acquire_read me c = priv_acquire_write me c \<and>
         (me \<in> set (owning c) \<longrightarrow>
            priv_acquire_read me c =
              (Inr True, c\<lparr>state := state c - 1, owning := owning c @ [me]\<rparr>) \<and>
            acquire_read me timeout clock wakes c =
              Some (Inr True, c\<lparr>state := state c - 1, owning := owning c @ [me]\<rparr>)) \<and>
         (me \<notin> set (owning c) \<longrightarrow>
            priv_acquire_read me c = (Inr False, c) \<and>
            acquire_read me timeout clock wakes c =
              wait_loop (priv_acquire_read me) None timeout clock 0 wakes c \<and>
            acquire_read me None clock [] c = None \<and>
            ((\<forall>w\<in>set wakes. preserves (held_elsewhere me) w) \<longrightarrow>
               acquire_read me None clock wakes c = None \<and>
               (acquire_read me timeout clock wakes c = Some (r, c') \<longrightarrow> r = Inr False)))"
proof (intro conjI impI)
  show "priv_acquire_read me c = priv_acquire_write me c"
    using assms by (simp add: priv_acquire_read_def)
next
  assume "me \<in> set (owning c)"
  with assms show "priv_acquire_read me c =
      (Inr True, c\<lparr>state := state c - 1, owning := owning c @ [me]\<rparr>)"
    by (simp add: priv_acquire_read_def priv_acquire_write_def)
next
  assume "me \<in> set (owning c)"
  with assms show "acquire_read me timeout clock wakes c =
      Some (Inr True, c\<lparr>state := state c - 1, owning := owning c @ [me]\<rparr>)"
    by (simp add: acquire_read_def wait_for_def priv_acquire_read_def priv_acquire_write_def)
next
  assume "me \<notin> set (owning c)"
  with assms show "priv_acquire_read me c = (Inr False, c)"
    by (simp add: held_elsewhere_read_false held_elsewhere_def)
next
  assume "me \<notin> set (owning c)"
  with assms show "acquire_read me timeout clock wakes c =
      wait_loop (priv_acquire_read me) None timeout clock 0 wakes c"
    by (simp add: acquire_read_def wait_for_def held_elsewhere_read_false held_elsewhere_def)
next
  assume "me \<notin> set (owning c)"
  with assms show "acquire_read me None clock [] c = None"
    by (simp add: acquire_read_def wait_for_def held_elsewhere_read_false held_elsewhere_def
        wait_loop_first_round_Nil)
next
  assume out: "me \<notin> set (owning c)" and rely: "\<forall>w\<in>set wakes. preserves (held_elsewhere me) w"
  from assms out have held: "held_elsewhere me c" by (simp add: held_elsewhere_def)
  then show "acquire_read me None clock wakes c = None"
    using rely
    by (simp add: acquire_read_def wait_for_def held_elsewhere_read_false
        wait_loop_untimed_held_elsewhere)
next
  assume out: "me \<notin> set (owning c)" and rely: "\<forall>w\<in>set wakes. preserves (held_elsewhere me) w"
    and run: "acquire_read me timeout clock wakes c = Some (r, c')"
  from assms out have held: "held_elsewhere me c" by (simp add: held_elsewhere_def)
  from run held
  have "wait_loop (priv_acquire_read me) None timeout clock 0 wakes c = Some (r, c')"
    by (simp add: acquire_read_def wait_for_def held_elsewhere_read_false)
  from wait_loop_held_elsewhere [OF rely held this] show "r = Inr False" .
qed

theorem read_in_write_mode_witness:
  "acquire_read 5 None frozen_clock [] \<lparr>state = - 1, waiting = 0, owning = [5]\<rparr> =
     Some (Inr True, \<lparr>state = - 2, waiting = 0, owning = [5, 5]\<rparr>) \<and>
   priv_acquire_read 6 \<lparr>state = - 1, waiting = 0, owning = [5]\<rparr> =
     (Inr False, \<lparr>state = - 1, waiting = 0, owning = [5]\<rparr>) \<and>
   acquire_read 6 None frozen_clock [acquired_by 5] \<lparr>state = - 1, waiting = 0, owning = [5]\<rparr> =
     None \<and>
   acquire_read 6 (Some 1) ticking_clock [acquired_by 5]
       \<lparr>state = - 1, waiting = 0, owning = [5]\<rparr> =
     Some (Inr False, \<lparr>state = - 2, waiting = 0, owning = [5, 5]\<rparr>)"
proof -
  let ?c = "\<lparr>state = - 1, waiting = 0, owning = [5]\<rparr>"
  have neg: "state ?c < 0" by simp
  have rely: "\<forall>w\<in>set [acquired_by 5]. preserves (held_elsewhere 6) w"
    by (simp add: acquired_by_keeps_held_elsewhere)
  have timed: "acquire_read 6 (Some 1) ticking_clock [acquired_by 5] ?c =
     Some (Inr False, \<lparr>state = - 2, waiting = 0, owning = [5, 5]\<rparr>)"
    by (simp add: acquire_read_def wait_for_def wait_loop_Cons wait_loop_Nil next_wait_def
        priv_acquire_read_def priv_acquire_write_def ticking_clock_def acquired_by_def)
  have mem: "5 \<in> set (owning ?c)" by simp
  have out: "6 \<notin> set (owning ?c)" by simp
  note owner = read_in_write_mode [OF neg, where me = 5 and timeout = None
      and clock = frozen_clock and wakes = "[]" and r = "Inr False" and c' = ?c]
  note other = read_in_write_mode [OF neg, where me = 6 and timeout = None
      and clock = frozen_clock and wakes = "[acquired_by 5]" and r = "Inr False" and c' = ?c]
  note timed_other = read_in_write_mode [OF neg, where me = 6 and timeout = "Some 1"
      and clock = ticking_clock and wakes = "[acquired_by 5]" and r = "Inr False"
      and c' = "\<lparr>state = - 2, waiting = 0, owning = [5, 5]\<rparr>"]
  have a: "acquire_read 5 None frozen_clock [] ?c =
     Some (Inr True, ?c\<lparr>state := state ?c - 1, owning := owning ?c @ [5]\<rparr>)"
    using owner mem by blast
  have b: "priv_acquire_read 6 ?c = (Inr False, ?c)"
    using other out by blast
  have c: "acquire_read 6 None frozen_clock [acquired_by 5] ?c = None"
    using other out rely by blast
  have d: "(Inr False :: error + bool) = Inr False"
    using timed_other out rely timed by blast
  show ?thesis using a b c timed by simp
qed

subsection \<open>Claim C8\<close>

text \<open>
  Claim C8, as amended. With \<open>blocking\<close> true, the timeout -1 becomes an indefinite
  wait and a timeout of 0 or more a bounded wait of that duration; with \<open>blocking\<close>
  false, the timeouts -1 and 0 become the expired timeout 0. An error is raised exactly
  when the timeout is negative and not -1, or is positive with \<open>blocking\<close> false.
\<close>

theorem timeout_translation:
  "(blocking \<and> timeout = - 1 \<longrightarrow> priv_timeout blocking timeout = Inr None) \<and>
   (blocking \<and> 0 \<le> timeout \<longrightarrow> priv_timeout blocking timeout = Inr (Some timeout)) \<and>
   (\<not> blocking \<and> (timeout = - 1 \<or> timeout = 0) \<longrightarrow>
      priv_timeout blocking timeout = Inr (Some 0)) \<and>
   (isl (priv_timeout blocking timeout) \<longleftrightarrow>
      (timeout < 0 \<and> timeout \<noteq> - 1) \<or> (\<not> blocking \<and> 0 < timeout))"
proof (intro conjI impI)
  assume "blocking \<and> timeout = - 1"
  then show "priv_timeout blocking timeout = Inr None" by (simp add: priv_timeout_def)
next
  assume "blocking \<and> 0 \<le> timeout"
  then show "priv_timeout blocking timeout = Inr (Some timeout)" by (simp add: priv_timeout_def)
next
  assume "\<not> blocking \<and> (timeout = - 1 \<or> timeout = 0)"
  then show "priv_timeout blocking timeout = Inr (Some 0)"
    by (elim conjE disjE) (simp_all add: priv_timeout_def)
next
  show "isl (priv_timeout blocking timeout) \<longleftrightarrow>
      (timeout < 0 \<and> timeout \<noteq> - 1) \<or> (\<not> blocking \<and> 0 < timeout)"
    by (rule timeout_raises)
qed

theorem timeout_translation_witness:
  "priv_timeout True (- 1) = Inr None \<and> priv_timeout True (5 / 2) = Inr (Some (5 / 2)) \<and>
   priv_timeout False 0 = Inr (Some 0) \<and> isl (priv_timeout False 3) \<and>
   isl (priv_timeout True (- 2))"
  using timeout_translation [of True "- 1"] timeout_translation [of True "5 / 2"]
        timeout_translation [of False 0] timeout_translation [of False 3]
        timeout_translation [of True "- 2"]
  by simp

text \<open>
  Claim C8 as stated fails: the negative timeout -1/2 with \<open>blocking\<close> true is not below
  -1, yet it is not translated to an indefinite wait: the call raises.
\<close>

theorem timeout_translation_counterexample:
  "priv_timeout True (- 1 / 2) = Inl (ValueError ''invalid timeout'') \<and>
   priv_timeout True (- 1 / 2) \<noteq> Inr None \<and>
   \<not> ((- 1 / 2 :: real) < - 1)"
  by (simp add: priv_timeout_def)

subsection \<open>Claim C10\<close>

text \<open>
  Claim C10. \<^verbatim>\<open>_release_save\<close> asks only that the caller is somewhere in \<open>owning\<close>;
  the sign of \<open>state\<close> plays no part. The call then returns the whole of \<open>owning\<close> as the
  token, with the stakes of other threads in it, empties \<open>owning\<close>, sets \<open>state\<close> to 0 and
  calls \<^verbatim>\<open>notify_all\<close>. A caller with no stake gets the error of an un-acquired lock.
\<close>

theorem release_save_any_stake:
  "(me \<in> set (owning c) \<longrightarrow>
      fst (priv_release_save me c) = Inr (owning c, [NotifyAll]) \<and>
      owning (snd (priv_release_save me c)) = [] \<and>
      state (snd (priv_release_save me c)) = 0 \<and>
      waiting (snd (priv_release_save me c)) = waiting c) \<and>
   (me \<notin> set (owning c) \<longrightarrow>
      priv_release_save me c = (Inl (RuntimeError ''cannot release an un-acquired lock''), c))"
  by (simp add: priv_release_save_def)

theorem release_save_any_stake_witness:
  "priv_release_save 1 \<lparr>state = 3, waiting = 1, owning = [2, 1, 2]\<rparr> =
     (Inr ([2, 1, 2], [NotifyAll]), \<lparr>state = 0, waiting = 1, owning = []\<rparr>) \<and>
   priv_release_save 4 \<lparr>state = 3, waiting = 1, owning = [2, 1, 2]\<rparr> =
     (Inl (RuntimeError ''cannot release an un-acquired lock''),
      \<lparr>state = 3, waiting = 1, owning = [2, 1, 2]\<rparr>)"
  using release_save_any_stake [of 1 "\<lparr>state = 3, waiting = 1, owning = [2, 1, 2]\<rparr>"]
        release_save_any_stake [of 4 "\<lparr>state = 3, waiting = 1, owning = [2, 1, 2]\<rparr>"]
  by (cases "priv_release_save 1 \<lparr>state = 3, waiting = 1, owning = [2, 1, 2]\<rparr>";
      cases "snd (priv_release_save 1 \<lparr>state = 3, waiting = 1, owning = [2, 1, 2]\<rparr>)") simp

subsection \<open>Claim C5\<close>

text \<open>
  Claim C5. A thread holds the lock exclusively at depth \<open>d\<close>: \<open>state\<close> is \<open>-d\<close> and
  \<open>owning\<close> is \<open>d\<close> copies of its identity. \<^verbatim>\<open>_release_save\<close> returns these copies as
  the token and frees the lock. \<^verbatim>\<open>_acquire_restore\<close> with the token, no other thread
  stepping in, returns without waiting and gives the fields their values from before the
  save. There \<^verbatim>\<open>_is_owned\<close> is true, each of \<open>d\<close> calls of \<^verbatim>\<open>release\<close> succeeds,
  \<open>state\<close> is not 0 after fewer than \<open>d\<close> of them and is 0 after \<open>d\<close>.
\<close>

theorem save_restore_roundtrip:
  assumes "0 < d" and "state c = - int d" and "owning c = replicate d me"
  shows "fst (priv_release_save me c) = Inr (replicate d me, [NotifyAll]) \<and>
         state (snd (priv_release_save me c)) = 0 \<and>
         owning (snd (priv_release_save me c)) = [] \<and>
         priv_acquire_restore me (replicate d me) clock wakes (\<lambda>s. s)
           (snd (priv_release_save me c)) = Some (Inr (), c) \<and>
         priv_is_owned me c \<and>
         (\<forall>k<d. state (release_repeat k me c) \<noteq> 0 \<and>
                 \<not> isl (fst (release me (release_repeat k me c)))) \<and>
         state (release_repeat d me c) = 0 \<and>
         owning (release_repeat d me c) = []"
proof -
  have mem: "me \<in> set (owning c)" using assms by simp
  have save: "priv_release_save me c =
      (Inr (replicate d me, [NotifyAll]), c\<lparr>owning := [], state := 0\<rparr>)"
    using mem assms by (simp add: priv_release_save_def)
  have same: "c\<lparr>owning := replicate d me, state := - int (length (replicate d me))\<rparr> = c"
    using assms by (cases c) simp
  have restore: "priv_acquire_restore me (replicate d me) clock wakes (\<lambda>s. s)
           (snd (priv_release_save me c)) = Some (Inr (), c)"
    using same by (simp add: save restore_after_save)
  have owned: "priv_is_owned me c" using assms by (simp add: priv_is_owned_def)
  have during: "state (release_repeat k me c) \<noteq> 0 \<and>
                 \<not> isl (fst (release me (release_repeat k me c)))" if "k < d" for k
  proof -
    have "release_repeat k me c = c\<lparr>owning := replicate (d - k) me, state := - int (d - k)\<rparr>"
      using that assms by (intro release_repeat_exclusive) simp_all
    then show ?thesis using that by (simp add: release_def Let_def)
  qed
  have "release_repeat d me c = c\<lparr>owning := replicate (d - d) me, state := - int (d - d)\<rparr>"
    using assms by (intro release_repeat_exclusive) simp_all
  then have final: "state (release_repeat d me c) = 0 \<and> owning (release_repeat d me c) = []"
    by simp
  show ?thesis using save restore owned during final by simp
qed

theorem save_restore_roundtrip_witness:
  "priv_release_save 9 \<lparr>state = - 2, waiting = 1, owning = [9, 9]\<rparr> =
     (Inr ([9, 9], [NotifyAll]), \<lparr>state = 0, waiting = 1, owning = []\<rparr>) \<and>
   priv_acquire_restore 9 [9, 9] frozen_clock [] (\<lambda>s. s) \<lparr>state = 0, waiting = 1, owning = []\<rparr> =
     Some (Inr (), \<lparr>state = - 2, waiting = 1, owning = [9, 9]\<rparr>) \<and>
   priv_is_owned 9 \<lparr>state = - 2, waiting = 1, owning = [9, 9]\<rparr> \<and>
   state (release_repeat 1 9 \<lparr>state = - 2, waiting = 1, owning = [9, 9]\<rparr>) \<noteq> 0 \<and>
   state (release_repeat 2 9 \<lparr>state = - 2, waiting = 1, owning = [9, 9]\<rparr>) = 0"
proof -
  let ?c = "\<lparr>state = - 2, waiting = 1, owning = [9, 9]\<rparr>"
  have h: "(0::nat) < 2" "state ?c = - int 2" "owning ?c = replicate 2 9"
    by (simp_all add: numeral_2_eq_2)
  have save: "priv_release_save 9 ?c =
     (Inr ([9, 9], [NotifyAll]), \<lparr>state = 0, waiting = 1, owning = []\<rparr>)"
    by (simp add: priv_release_save_def)
  have rep: "replicate 2 (9::int) = [9, 9]" by (simp add: numeral_2_eq_2)
  note round = save_restore_roundtrip [OF h, of frozen_clock "[]"]
  from round have depth: "\<forall>k<2. state (release_repeat k 9 ?c) \<noteq> 0 \<and>
                 \<not> isl (fst (release 9 (release_repeat k 9 ?c)))"
    by blast
  from depth [rule_format, of 1] have one: "state (release_repeat 1 9 ?c) \<noteq> 0"
    by simp
  from round save rep one show ?thesis by simp
qed

subsection \<open>Claim C7\<close>




subsection \<open>Claim C9\<close>

text \<open>
  Claim C9, as amended. With the timeout 0, a first evaluation of the predicate that is
  true, or that raises, ends the call at once; no wake-up is needed. After a first
  evaluation that is false the call makes one call of \<^verbatim>\<open>self.cond.wait(0)\<close>, evaluates the
  predicate a second time on the fields as that wait left them, and ends with the outcome
  of this second evaluation, as long as the clock has not gone backwards between its first
  two readings.
\<close>

theorem expired_timeout:
  "(fst (predicate c) \<noteq> Inr False \<longrightarrow>
      wait_for predicate (Some 0) clock wakes c = Some (predicate c)) \<and>
   (fst (predicate c) = Inr False \<and> clock 0 \<le> clock 1 \<longrightarrow>
      wait_for predicate (Some 0) clock (w # rest) c =
        Some (predicate (w (snd (predicate c)))))"
proof (intro conjI impI)
  assume "fst (predicate c) \<noteq> Inr False"
  then show "wait_for predicate (Some 0) clock wakes c = Some (predicate c)"
    by (rule wait_for_fast)
next
  assume a: "fst (predicate c) = Inr False \<and> clock 0 \<le> clock 1"
  obtain r c1 where first: "predicate c = (r, c1)" by (cases "predicate c")
  obtain r' c2 where second: "predicate (w c1) = (r', c2)" by (cases "predicate (w c1)")
  have r: "r = Inr False" using a first by simp
  have late: "clock 0 + 0 \<le> clock (Suc 0)" using a by simp
  show "wait_for predicate (Some 0) clock (w # rest) c =
        Some (predicate (w (snd (predicate c))))"
    using first second r late
      wait_loop_expired [where clock = clock and i = "Suc 0" and e = "clock 0 + 0"]
    by (simp add: wait_for_def wait_loop_Cons next_wait_def)
qed

theorem expired_timeout_witness:
  "wait_for (priv_acquire_read 1) (Some 0) ticking_clock [] \<lparr>state = 0, waiting = 0, owning = []\<rparr> =
     Some (Inr True, \<lparr>state = 1, waiting = 0, owning = [1]\<rparr>) \<and>
   wait_for (priv_acquire_read 1) (Some 0) ticking_clock [\<lambda>s. s]
       \<lparr>state = - 1, waiting = 0, owning = [2]\<rparr> =
     Some (Inr False, \<lparr>state = - 1, waiting = 0, owning = [2]\<rparr>)"
proof -
  have p1: "priv_acquire_read 1 \<lparr>state = 0, waiting = 0, owning = []\<rparr> =
              (Inr True, \<lparr>state = 1, waiting = 0, owning = [1]\<rparr>)"
    by (simp add: priv_acquire_read_def)
  have p2: "priv_acquire_read 1 \<lparr>state = - 1, waiting = 0, owning = [2]\<rparr> =
              (Inr False, \<lparr>state = - 1, waiting = 0, owning = [2]\<rparr>)"
    by (simp add: priv_acquire_read_def priv_acquire_write_def)
  have t: "ticking_clock 0 \<le> ticking_clock 1" by (simp add: ticking_clock_def)
  from expired_timeout [of "priv_acquire_read 1" "\<lparr>state = 0, waiting = 0, owning = []\<rparr>"
         ticking_clock "[]"]
       expired_timeout [of "priv_acquire_read 1" "\<lparr>state = - 1, waiting = 0, owning = [2]\<rparr>"
         ticking_clock _ "\<lambda>s. s" "[]"]
       p1 p2 t
  show ?thesis by simp
qed

text \<open>
  Claim C9 as stated fails. Thread 2 holds the lock exclusively and thread 1 tries to read
  with the timeout 0: the first evaluation is false, thread 2 releases while thread 1 is
  inside \<^verbatim>\<open>self.cond.wait(0)\<close>, the second evaluation admits thread 1 and the call
  returns \<open>True\<close>.
\<close>

theorem expired_timeout_counterexample:
  "fst (priv_acquire_read 1 \<lparr>state = - 1, waiting = 0, owning = [2]\<rparr>) = Inr False \<and>
   wait_for (priv_acquire_read 1) (Some 0) frozen_clock [released_by 2]
       \<lparr>state = - 1, waiting = 0, owning = [2]\<rparr> =
     Some (Inr True, \<lparr>state = 1, waiting = 0, owning = [1]\<rparr>)"
  by (simp add: wait_for_def wait_loop_Cons next_wait_def priv_acquire_read_def
      priv_acquire_write_def released_by_def release_def)

subsection \<open>Claim C1\<close>

text \<open>
  Claim C1, as amended. From fields that satisfy the invariants, every operation ends in
  fields that satisfy them, under these provisos on the other threads. For
  \<^verbatim>\<open>acquire_read\<close>: what they do during each wait keeps the invariants. For
  \<^verbatim>\<open>acquire_write\<close>: what they do during each wait keeps the invariants and keeps
  \<open>waiting\<close> at 1 or more, the caller's own unit. For \<^verbatim>\<open>_acquire_restore\<close>: the same as
  for \<^verbatim>\<open>acquire_write\<close>, what they do between the inner \<^verbatim>\<open>acquire_write\<close> and the
  assignment keeps the invariants, and the entries of the token all name one thread; the
  token that \<^verbatim>\<open>_release_save\<close> returns to the exclusive owner is of this kind.
  \<^verbatim>\<open>release\<close> and \<^verbatim>\<open>_release_save\<close> need no proviso.
\<close>

theorem operations_keep_invariant:
  assumes "invariant c"
  shows "((\<forall>w\<in>set wakes. preserves invariant w) \<and>
             acquire_read me timeout clock wakes c = Some (r1, c1) \<longrightarrow> invariant c1) \<and>
         ((\<forall>w\<in>set wakes. preserves invariant_while_waiting w) \<and>
             acquire_write me timeout clock wakes c = Some (r2, c2) \<longrightarrow> invariant c2) \<and>
         invariant (snd (release me c)) \<and>
         invariant (snd (priv_release_save me c)) \<and>
         (priv_is_owned me c \<longrightarrow>
             fst (priv_release_save me c) = Inr (owning c, [NotifyAll]) \<and>
             (\<forall>t\<in>set (owning c). t = hd (owning c))) \<and>
         ((\<forall>w\<in>set wakes. preserves invariant_while_waiting w) \<and> preserves invariant between \<and>
             (\<forall>t\<in>set x. t = hd x) \<and>
             priv_acquire_restore me x clock wakes between c = Some (r3, c3) \<longrightarrow> invariant c3)"
proof (intro conjI impI)
  assume "(\<forall>w\<in>set wakes. preserves invariant w) \<and>
             acquire_read me timeout clock wakes c = Some (r1, c1)"
  with assms show "invariant c1" by (blast intro: invariant_acquire_read)
next
  assume "(\<forall>w\<in>set wakes. preserves invariant_while_waiting w) \<and>
             acquire_write me timeout clock wakes c = Some (r2, c2)"
  with assms show "invariant c2" by (blast intro: invariant_acquire_write)
next
  show "invariant (snd (release me c))" using assms by (rule invariant_release)
next
  show "invariant (snd (priv_release_save me c))" using assms by (rule invariant_priv_release_save)
next
  assume "priv_is_owned me c"
  then show "fst (priv_release_save me c) = Inr (owning c, [NotifyAll])"
    by (simp add: priv_is_owned_def priv_release_save_def)
next
  assume "priv_is_owned me c"
  with assms show "\<forall>t\<in>set (owning c). t = hd (owning c)"
    by (simp add: priv_is_owned_def invariant_def)
next
  assume a: "(\<forall>w\<in>set wakes. preserves invariant_while_waiting w) \<and> preserves invariant between \<and>
             (\<forall>t\<in>set x. t = hd x) \<and>
             priv_acquire_restore me x clock wakes between c = Some (r3, c3)"
  show "invariant c3"
    by (rule invariant_priv_acquire_restore [OF assms, of wakes between x me clock r3 c3])
       (use a in blast)+
qed

theorem operations_keep_invariant_witness:
  "acquire_read 6 None frozen_clock [released_by 5] \<lparr>state = - 1, waiting = 0, owning = [5]\<rparr> =
     Some (Inr True, \<lparr>state = 1, waiting = 0, owning = [6]\<rparr>) \<and>
   invariant \<lparr>state = 1, waiting = 0, owning = [6]\<rparr> \<and>
   acquire_write 6 None frozen_clock [released_by 5] \<lparr>state = - 1, waiting = 0, owning = [5]\<rparr> =
     Some (Inr True, \<lparr>state = - 1, waiting = 0, owning = [6]\<rparr>) \<and>
   invariant \<lparr>state = - 1, waiting = 0, owning = [6]\<rparr> \<and>
   priv_acquire_restore 6 [6, 6] frozen_clock [released_by 5] id
       \<lparr>state = - 1, waiting = 0, owning = [5]\<rparr> =
     Some (Inr (), \<lparr>state = - 2, waiting = 0, owning = [6, 6]\<rparr>) \<and>
   invariant \<lparr>state = - 2, waiting = 0, owning = [6, 6]\<rparr> \<and>
   invariant (snd (release 5 \<lparr>state = - 1, waiting = 0, owning = [5]\<rparr>)) \<and>
   invariant (snd (priv_release_save 5 \<lparr>state = - 1, waiting = 0, owning = [5]\<rparr>))"
proof -
  let ?c = "\<lparr>state = - 1, waiting = 0, owning = [5]\<rparr>"
  have inv: "invariant ?c" by (simp add: invariant_def)
  have others: "\<forall>w\<in>set [released_by 5]. preserves invariant w"
    by (simp add: released_by_keeps_invariant)
  have others': "\<forall>w\<in>set [released_by 5]. preserves invariant_while_waiting w"
    by (simp add: released_by_keeps_waiting)
  have gap: "preserves invariant id" by (simp add: preserves_def)
  have token: "\<forall>t\<in>set [6, 6::int]. t = hd [6, 6]" by simp
  have rd: "acquire_read 6 None frozen_clock [released_by 5] ?c =
     Some (Inr True, \<lparr>state = 1, waiting = 0, owning = [6]\<rparr>)"
    by (simp add: acquire_read_def wait_for_def wait_loop_Cons next_wait_def
        priv_acquire_read_def priv_acquire_write_def released_by_def release_def)
  have wr: "acquire_write 6 None frozen_clock [released_by 5] ?c =
     Some (Inr True, \<lparr>state = - 1, waiting = 0, owning = [6]\<rparr>)"
    by (simp add: acquire_write_def wait_for_def wait_loop_Cons next_wait_def
        priv_acquire_write_def released_by_def release_def)
  have rs: "priv_acquire_restore 6 [6, 6] frozen_clock [released_by 5] id ?c =
     Some (Inr (), \<lparr>state = - 2, waiting = 0, owning = [6, 6]\<rparr>)"
    by (simp add: priv_acquire_restore_def wr)
  note six = operations_keep_invariant [OF inv, where wakes = "[released_by 5]" and me = 6
      and timeout = None and clock = frozen_clock and between = id and x = "[6, 6]"
      and ?r1.0 = "Inr True" and ?c1.0 = "\<lparr>state = 1, waiting = 0, owning = [6]\<rparr>"
      and ?r2.0 = "Inr True" and ?c2.0 = "\<lparr>state = - 1, waiting = 0, owning = [6]\<rparr>"
      and ?r3.0 = "Inr ()" and ?c3.0 = "\<lparr>state = - 2, waiting = 0, owning = [6, 6]\<rparr>"]
  note five = operations_keep_invariant [OF inv, where me = 5]
  have acquired: "invariant \<lparr>state = 1, waiting = 0, owning = [6]\<rparr> \<and>
      invariant \<lparr>state = - 1, waiting = 0, owning = [6]\<rparr> \<and>
      invariant \<lparr>state = - 2, waiting = 0, owning = [6, 6]\<rparr>"
    using six others others' gap token rd wr rs by blast
  have released: "invariant (snd (release 5 ?c)) \<and> invariant (snd (priv_release_save 5 ?c))"
    using five by blast
  show ?thesis using acquired released rd wr rs by simp
qed

text \<open>
  Claim C1 as stated fails for \<^verbatim>\<open>_acquire_restore\<close>. Threads 1 and 2 hold the lock shared.
  Thread 1 calls \<^verbatim>\<open>_release_save\<close> and gets the token with both identities, then calls
  \<^verbatim>\<open>_acquire_restore\<close> with it: \<open>state\<close> becomes -2 while \<open>owning\<close> names two threads.
\<close>

theorem operations_keep_invariant_counterexample:
  "invariant \<lparr>state = 2, waiting = 0, owning = [1, 2]\<rparr> \<and>
   priv_release_save 1 \<lparr>state = 2, waiting = 0, owning = [1, 2]\<rparr> =
     (Inr ([1, 2], [NotifyAll]), \<lparr>state = 0, waiting = 0, owning = []\<rparr>) \<and>
   invariant \<lparr>state = 0, waiting = 0, owning = []\<rparr> \<and>
   priv_acquire_restore 1 [1, 2] frozen_clock [] id \<lparr>state = 0, waiting = 0, owning = []\<rparr> =
     Some (Inr (), \<lparr>state = - 2, waiting = 0, owning = [1, 2]\<rparr>) \<and>
   \<not> invariant \<lparr>state = - 2, waiting = 0, owning = [1, 2]\<rparr>"
  by (simp add: invariant_def priv_release_save_def priv_acquire_restore_def acquire_write_def
      wait_for_def priv_acquire_write_def)

end
